theory Spec2Isabelle
  imports Complex_Main "HOL-Library.Word"
begin

unbundle bit_operations_syntax

section \<open>JavaScript values used by base64.ts\<close>

text \<open>
  A JavaScript string is a sequence of UTF-16 code units, and the regular expressions of
  base64.ts (none has the \<open>u\<close> flag) work on code units. A \<open>Uint8Array\<close> is a
  sequence of bytes. The operands of \<open><<\<close>, \<open>>>\<close>, \<open>|\<close> and \<open>&\<close> are
  converted to 32-bit signed integers, and so is the result.
\<close>

type_synonym jschar = "16 word"
type_synonym jsstring = "jschar list"
type_synonym byte = "8 word"
type_synonym int32 = "32 word"

text \<open>A string literal of the source, all of whose characters are ASCII.\<close>

definition chr :: "char \<Rightarrow> jschar" where
  "chr c = of_nat (of_char c)"

definition js :: "string \<Rightarrow> jsstring" where
  "js s = map chr s"

text \<open>
  A value of type \<open>any\<close>, as far as \<open>typeof source !== 'string'\<close> tells values
  apart: a string, or anything else.
\<close>

datatype js_any = JSString jsstring | JSNotAString

datatype error =
    InvalidBase64String  \<comment> \<open>\<open>throw new Error('Invalid base64 string')\<close>\<close>
  | RangeError           \<comment> \<open>\<open>new Uint8Array(n)\<close> with a negative \<open>n\<close>\<close>

section \<open>The alphabet tables (lines 1 to 13)\<close>

definition code :: jsstring where
  "code = js ''ABCDEFGHIJKLMNOPQRSTUVWXYZabcdefghijklmnopqrstuvwxyz0123456789+/''"

text \<open>
  \<open>lookup\<close> is an array of one-character strings and \<open>revLookup\<close> an object whose keys
  are one-character strings; a one-character string is represented by its code unit.
  \<open>revLookup\<close> starts with the two URL-safe entries; the loop then stores
  \<open>lookup[i] = code[i]\<close> and \<open>revLookup[code[i]] = i\<close> for every index of \<open>code\<close>.
\<close>

type_synonym tables = "(nat \<rightharpoonup> jschar) \<times> (jschar \<rightharpoonup> nat)"

definition revLookup_initial :: "jschar \<rightharpoonup> nat" where
  "revLookup_initial = [chr CHR ''-'' \<mapsto> 62, chr CHR ''_'' \<mapsto> 63]"

definition init_step :: "nat \<Rightarrow> tables \<Rightarrow> tables" where
  "init_step i t = ((fst t)(i \<mapsto> code ! i), (snd t)(code ! i \<mapsto> i))"

definition init_tables :: tables where
  "init_tables = fold init_step [0..<length code] (Map.empty, revLookup_initial)"

definition lookup :: "nat \<rightharpoonup> jschar" where
  "lookup = fst init_tables"

definition revLookup :: "jschar \<rightharpoonup> nat" where
  "revLookup = snd init_tables"

text \<open>
  \<open>lookup[k] + ...\<close>: the element at index \<open>k\<close> as an operand of string concatenation.
  An index outside the array reads \<open>undefined\<close>, which concatenation turns into the
  text "undefined".
\<close>

definition lookup_str :: "int32 \<Rightarrow> jsstring" where
  "lookup_str k =
     (case (if 0 \<le> sint k then lookup (nat (sint k)) else None) of
        Some c \<Rightarrow> [c]
      | None \<Rightarrow> js ''undefined'')"

text \<open>
  \<open>revLookup[base64[i]]\<close> as an operand of a bitwise operator. \<open>base64[i]\<close> is
  \<open>undefined\<close> when \<open>i\<close> is outside the string, \<open>revLookup\<close> has no entry for it nor
  for a character outside the alphabets, and the operator converts \<open>undefined\<close> to 0.
\<close>

definition rev_at :: "jsstring \<Rightarrow> nat \<Rightarrow> int32" where
  "rev_at base64 i =
     (case (if i < length base64 then revLookup (base64 ! i) else None) of
        Some v \<Rightarrow> of_nat v
      | None \<Rightarrow> 0)"

section \<open>fromUint8Array (lines 173 to 204)\<close>

text \<open>
  \<open>uint8Array[i]\<close> as a number. Every read of \<open>fromUint8Array\<close> is inside the array
  (\<open>i + 2 < forLen \<le> len\<close> in the loop, \<open>len - 2\<close> and \<open>len - 1\<close> when
  \<open>len % 3\<close> is 1 or 2); outside it the read is \<open>undefined\<close>, which a bitwise operator
  converts to 0.
\<close>

definition u8_at :: "byte list \<Rightarrow> nat \<Rightarrow> int32" where
  "u8_at uint8Array i = (if i < length uint8Array then ucast (uint8Array ! i) else 0)"

definition encode_triplet :: "byte list \<Rightarrow> nat \<Rightarrow> jsstring" where
  "encode_triplet uint8Array i =
     (let tmp = push_bit 16 (u8_at uint8Array i) OR push_bit 8 (u8_at uint8Array (i + 1))
                  OR u8_at uint8Array (i + 2)
      in lookup_str (signed_drop_bit 18 tmp AND 0x3f) @
         lookup_str (signed_drop_bit 12 tmp AND 0x3f) @
         lookup_str (signed_drop_bit 6 tmp AND 0x3f) @
         lookup_str (tmp AND 0x3f))"

function encode_loop :: "byte list \<Rightarrow> nat \<Rightarrow> nat \<Rightarrow> jsstring list \<Rightarrow> jsstring list" where
  "encode_loop uint8Array forLen i parts =
     (if i < forLen
      then encode_loop uint8Array forLen (i + 3) (parts @ [encode_triplet uint8Array i])
      else parts)"
  by pat_completeness auto
termination
  by (relation "measure (\<lambda>(uint8Array, forLen, i, parts). forLen - i)") auto

declare encode_loop.simps [simp del]

definition fromUint8Array :: "byte list \<Rightarrow> jsstring" where
  "fromUint8Array uint8Array =
     (let len = length uint8Array;
          extraBytes = len mod 3;
          forLen = len - extraBytes;
          parts = encode_loop uint8Array forLen 0 [];
          parts' =
            (if extraBytes = 1 then
               (let tmp = u8_at uint8Array (len - 1)
                in parts @ [lookup_str (signed_drop_bit 2 tmp) @
                            lookup_str (push_bit 4 tmp AND 0x3f) @ js ''==''])
             else if extraBytes = 2 then
               (let tmp = push_bit 8 (u8_at uint8Array (len - 2)) + u8_at uint8Array (len - 1)
                in parts @ [lookup_str (signed_drop_bit 10 tmp) @
                            lookup_str (signed_drop_bit 4 tmp AND 0x3f) @
                            lookup_str (push_bit 2 tmp AND 0x3f) @ js ''=''])
             else parts)
      in concat parts')"

section \<open>The validity check (lines 67 to 73)\<close>

text \<open>
  The class \<open>\s\<close> of a JavaScript regular expression: the white space and line
  terminator code points of ECMAScript.
\<close>

definition is_space :: "jschar \<Rightarrow> bool" where
  "is_space c \<longleftrightarrow>
     c = 0x9 \<or> c = 0xA \<or> c = 0xB \<or> c = 0xC \<or> c = 0xD \<or> c = 0x20 \<or> c = 0xA0 \<or>
     c = 0x1680 \<or> (0x2000 \<le> c \<and> c \<le> 0x200A) \<or> c = 0x2028 \<or> c = 0x2029 \<or>
     c = 0x202F \<or> c = 0x205F \<or> c = 0x3000 \<or> c = 0xFEFF"

definition alnum :: "jschar \<Rightarrow> bool" where
  \<comment> \<open>\<open>0-9a-zA-Z\<close>\<close>
  "alnum c \<longleftrightarrow>
     (chr CHR ''0'' \<le> c \<and> c \<le> chr CHR ''9'') \<or>
     (chr CHR ''a'' \<le> c \<and> c \<le> chr CHR ''z'') \<or>
     (chr CHR ''A'' \<le> c \<and> c \<le> chr CHR ''Z'')"

definition std_class :: "jschar \<Rightarrow> bool" where
  \<comment> \<open>the characters that \<open>[^\s0-9a-zA-Z+/]\<close> excludes\<close>
  "std_class c \<longleftrightarrow> is_space c \<or> alnum c \<or> c = chr CHR ''+'' \<or> c = chr CHR ''/''"

definition url_class :: "jschar \<Rightarrow> bool" where
  \<comment> \<open>the characters that \<open>[^\s0-9a-zA-Z\-_]\<close> excludes\<close>
  "url_class c \<longleftrightarrow> is_space c \<or> alnum c \<or> c = chr CHR ''-'' \<or> c = chr CHR ''_''"

text \<open>\<open>.replace(/\s+/g, '')\<close> deletes every white space character.\<close>

definition remove_spaces :: "jsstring \<Rightarrow> jsstring" where
  "remove_spaces s = filter (\<lambda>c. \<not> is_space c) s"

text \<open>
  \<open>.replace(/={0,2}$/, '')\<close> replaces the leftmost match. The pattern matches at a
  position exactly when what follows it is \<open>==\<close>, \<open>=\<close> or nothing, so the leftmost match
  is the last two characters when they are \<open>==\<close>, else the last character when it is
  \<open>=\<close>, else the empty match at the end.
\<close>

definition strip_padding_0_2 :: "jsstring \<Rightarrow> jsstring" where
  "strip_padding_0_2 s =
     (let n = length s in
      if 2 \<le> n \<and> drop (n - 2) s = js ''=='' then take (n - 2) s
      else if 1 \<le> n \<and> drop (n - 1) s = js ''='' then take (n - 1) s
      else s)"

fun isValidBase64String :: "js_any \<Rightarrow> bool" where
  "isValidBase64String JSNotAString = False"
| "isValidBase64String (JSString source) =
     (let string = strip_padding_0_2 (remove_spaces source)
      in \<not> list_ex (\<lambda>c. \<not> std_class c) string \<or> \<not> list_ex (\<lambda>c. \<not> url_class c) string)"

section \<open>URL-safe rendering and padding (lines 42 to 93)\<close>

text \<open>
  \<open>.replace(/=+$/g, "")\<close> deletes the run of \<open>=\<close> that ends the string; the two other
  replacements substitute one character everywhere.
\<close>

definition replace_char :: "jschar \<Rightarrow> jschar \<Rightarrow> jsstring \<Rightarrow> jsstring" where
  "replace_char a b s = map (\<lambda>c. if c = a then b else c) s"

definition strip_trailing_padding :: "jsstring \<Rightarrow> jsstring" where
  "strip_trailing_padding s = rev (dropWhile (\<lambda>c. c = chr CHR ''='') (rev s))"

definition base64urlEncode :: "jsstring \<Rightarrow> jsstring" where
  "base64urlEncode base64 =
     replace_char (chr CHR ''/'') (chr CHR ''_'')
       (replace_char (chr CHR ''+'') (chr CHR ''-'') (strip_trailing_padding base64))"

text \<open>
  \<open>(4 - (base64.length % 4)) % 4\<close>: the remainder is below 4, so the subtraction stays
  positive.
\<close>

definition getPaddingLength :: "jsstring \<Rightarrow> nat" where
  "getPaddingLength base64 = (4 - (length base64 mod 4)) mod 4"

definition base64urlDecode :: "jsstring \<Rightarrow> jsstring" where
  "base64urlDecode base64 =
     (let padding = replicate (getPaddingLength base64) (chr CHR ''='');
          base64String = replace_char (chr CHR ''_'') (chr CHR ''/'')
                           (replace_char (chr CHR ''-'') (chr CHR ''+'') (base64 @ padding))
      in base64String)"

text \<open>
  \<open>(base64 + padding).length * 3 / 4 - paddingLength\<close>. The padded length is a multiple
  of 4 (lemma \<open>padded_length_dvd\<close> below), so the division is exact.
\<close>

definition getByteLength :: "jsstring \<Rightarrow> int" where
  "getByteLength base64 =
     (let paddingLength = getPaddingLength base64;
          padding = replicate paddingLength (chr CHR ''='')
      in int (length (base64 @ padding)) * 3 div 4 - int paddingLength)"

section \<open>getBase64Info (lines 132 to 166)\<close>

record base64_info =
  validString :: jsstring
  validLength :: nat
  paddingString :: jsstring
  paddingLength :: nat
  isUrlSafe :: bool
  isNormal :: bool
  urlSafeString :: jsstring
  normalString :: jsstring

text \<open>\<open>s.indexOf(c)\<close> for a one-character \<open>c\<close>: the first index of \<open>c\<close>, or -1.\<close>

definition indexOf :: "jsstring \<Rightarrow> jschar \<Rightarrow> int" where
  "indexOf s c = (if c \<in> set s then int (length (takeWhile (\<lambda>x. x \<noteq> c) s)) else - 1)"

definition getBase64Info :: "jsstring \<Rightarrow> error + base64_info" where
  "getBase64Info base64 =
     (if \<not> isValidBase64String (JSString base64) then Inl InvalidBase64String
      else
        let len = length base64;
            \<comment> \<open>\<open>base64 += '='.repeat(paddingLength)\<close>: the variable from here on\<close>
            base64' = (if len mod 4 > 0
                       then base64 @ replicate (getPaddingLength base64) (chr CHR ''='')
                       else base64);
            index = indexOf base64' (chr CHR ''='');
            validLength = (if index > 0 then nat index else length base64');
            paddingString = (if index > 0 then drop (nat index) base64' else []);
            validString = take validLength base64';
            urlSafeString = base64urlEncode base64';
            normalString = base64urlDecode base64'
        in Inr \<lparr> validString = validString,
                 validLength = validLength,
                 paddingString = paddingString,
                 paddingLength = length paddingString,
                 isUrlSafe = (base64' = urlSafeString),
                 isNormal = (base64' = normalString),
                 urlSafeString = urlSafeString,
                 normalString = normalString \<rparr>)"

section \<open>toUint8Array (lines 211 to 246)\<close>

text \<open>\<open>new Uint8Array(n)\<close>: \<open>n\<close> zero bytes, or a RangeError for a negative \<open>n\<close>.\<close>

definition new_Uint8Array :: "int \<Rightarrow> error + byte list" where
  "new_Uint8Array n = (if n < 0 then Inl RangeError else Inr (replicate (nat n) 0))"

text \<open>
  \<open>uint8Array[k] = v\<close>: the value is stored modulo 256; a store outside a typed array
  is ignored.
\<close>

definition u8_set :: "byte list \<Rightarrow> nat \<Rightarrow> int32 \<Rightarrow> byte list" where
  "u8_set uint8Array k v = (if k < length uint8Array then uint8Array[k := ucast v] else uint8Array)"

definition decode_group :: "jsstring \<Rightarrow> nat \<Rightarrow> int32" where
  "decode_group base64 i =
     push_bit 18 (rev_at base64 i) OR push_bit 12 (rev_at base64 (i + 1)) OR
     push_bit 6 (rev_at base64 (i + 2)) OR rev_at base64 (i + 3)"

text \<open>
  The loop \<open>for (; i < len; i += 4)\<close> with \<open>len = Math.min(validLength / 4)\<close>, that is
  \<open>validLength / 4\<close> as a fraction: \<open>i < validLength / 4\<close> is \<open>4 * i < validLength\<close>.
  The state is \<open>(i, currentByte, uint8Array)\<close>.
\<close>

function decode_loop :: "jsstring \<Rightarrow> nat \<Rightarrow> nat \<times> nat \<times> byte list \<Rightarrow> nat \<times> nat \<times> byte list" where
  "decode_loop base64 validLen (i, currentByte, uint8Array) =
     (if 4 * i < validLen
      then
        let tmp = decode_group base64 i;
            a1 = u8_set uint8Array currentByte (signed_drop_bit 16 tmp AND 0xff);
            a2 = u8_set a1 (currentByte + 1) (signed_drop_bit 8 tmp AND 0xff);
            a3 = u8_set a2 (currentByte + 2) (tmp AND 0xff)
        in decode_loop base64 validLen (i + 4, currentByte + 3, a3)
      else (i, currentByte, uint8Array))"
  by pat_completeness auto
termination
  by (relation "measure (\<lambda>(base64, validLen, i, currentByte, uint8Array). validLen - 4 * i)") auto

declare decode_loop.simps [simp del]

definition decode_padding2 :: "jsstring \<Rightarrow> nat \<times> nat \<times> byte list \<Rightarrow> nat \<times> nat \<times> byte list" where
  "decode_padding2 base64 st =
     (case st of (i, currentByte, uint8Array) \<Rightarrow>
        let tmp = push_bit 2 (rev_at base64 i) OR signed_drop_bit 4 (rev_at base64 (i + 1))
        in (i, currentByte + 1, u8_set uint8Array currentByte (tmp AND 0xff)))"

definition decode_padding1 :: "jsstring \<Rightarrow> nat \<times> nat \<times> byte list \<Rightarrow> nat \<times> nat \<times> byte list" where
  "decode_padding1 base64 st =
     (case st of (i, currentByte, uint8Array) \<Rightarrow>
        let tmp = push_bit 10 (rev_at base64 i) OR push_bit 4 (rev_at base64 (i + 1)) OR
                  signed_drop_bit 2 (rev_at base64 (i + 2));
            a1 = u8_set uint8Array currentByte (signed_drop_bit 8 tmp AND 0xff);
            a2 = u8_set a1 (currentByte + 1) (tmp AND 0xff)
        in (i, currentByte + 2, a2))"

definition toUint8Array :: "jsstring \<Rightarrow> error + byte list" where
  "toUint8Array base64 =
     (case getBase64Info base64 of
        Inl e \<Rightarrow> Inl e
      | Inr info \<Rightarrow>
          (case new_Uint8Array (getByteLength base64) of
             Inl e \<Rightarrow> Inl e
           | Inr uint8Array \<Rightarrow>
               let st0 = decode_loop base64 (validLength info) (0, 0, uint8Array);
                   st1 = (if paddingLength info = 2 then decode_padding2 base64 st0 else st0);
                   st2 = (if paddingLength info = 1 then decode_padding1 base64 st1 else st1)
               in Inr (snd (snd st2))))"

section \<open>The contents of the tables\<close>

lemma code_length: "length code = 64"
  by (simp add: code_def js_def)

lemma code_distinct: "distinct code"
  by (simp add: code_def js_def chr_def)

lemma fold_init_fst:
  "fst (fold init_step [0..<n] t) i = (if i < n then Some (code ! i) else fst t i)"
  by (induction n) (auto simp: init_step_def less_Suc_eq)

lemma fold_init_snd_in:
  "n \<le> length code \<Longrightarrow> i < n \<Longrightarrow> snd (fold init_step [0..<n] t) (code ! i) = Some i"
proof (induction n)
  case 0
  then show ?case by simp
next
  case (Suc n)
  show ?case
  proof (cases "i = n")
    case True
    then show ?thesis by (simp add: init_step_def)
  next
    case False
    with Suc.prems have "i < n" "n < length code" by simp_all
    then have "code ! i \<noteq> code ! n"
      using code_distinct False by (simp add: nth_eq_iff_index_eq)
    with Suc \<open>i < n\<close> show ?thesis by (simp add: init_step_def)
  qed
qed

lemma fold_init_snd_out:
  "n \<le> length code \<Longrightarrow> c \<notin> set (take n code) \<Longrightarrow>
     snd (fold init_step [0..<n] t) c = snd t c"
  by (induction n) (auto simp: init_step_def take_Suc_conv_app_nth)

lemma lookup_eq: "lookup i = (if i < 64 then Some (code ! i) else None)"
  by (simp add: lookup_def init_tables_def fold_init_fst code_length)

lemma revLookup_code: "i < 64 \<Longrightarrow> revLookup (code ! i) = Some i"
  by (simp add: revLookup_def init_tables_def fold_init_snd_in code_length)

lemma revLookup_other: "c \<notin> set code \<Longrightarrow> revLookup c = revLookup_initial c"
  by (simp add: revLookup_def init_tables_def fold_init_snd_out)

text \<open>A form of \<open>revLookup\<close> that the simplifier evaluates at a given character.\<close>

lemma revLookup_eq:
  "revLookup c =
     (if c \<in> set code then Some (length (takeWhile (\<lambda>x. x \<noteq> c) code))
      else revLookup_initial c)"
proof (cases "c \<in> set code")
  case True
  let ?i = "length (takeWhile (\<lambda>x. x \<noteq> c) code)"
  have "?i \<noteq> length code"
  proof
    assume "?i = length code"
    then have "takeWhile (\<lambda>x. x \<noteq> c) code = code"
      using takeWhile_eq_take [of "\<lambda>x. x \<noteq> c" code] by simp
    with True show False by auto
  qed
  then have lt: "?i < length code"
    using length_takeWhile_le [of "\<lambda>x. x \<noteq> c" code] by simp
  then have "code ! ?i = c"
    using nth_length_takeWhile [of "\<lambda>x. x \<noteq> c" code] by simp
  with lt revLookup_code [of ?i] True show ?thesis by (simp add: code_length)
next
  case False
  then show ?thesis by (simp add: revLookup_other)
qed

lemma replicate_numeral: "replicate (numeral k) x = x # replicate (pred_numeral k) x"
  by (simp add: numeral_eq_Suc)

text \<open>The equations that evaluate the functions at a given input.\<close>

lemmas eval_defs = replicate_numeral js_def chr_def code_def revLookup_eq revLookup_initial_def
  lookup_eq rev_at_def lookup_str_def u8_at_def u8_set_def
  is_space_def alnum_def std_class_def url_class_def remove_spaces_def strip_padding_0_2_def
  replace_char_def strip_trailing_padding_def base64urlEncode_def base64urlDecode_def
  getPaddingLength_def getByteLength_def indexOf_def getBase64Info_def new_Uint8Array_def
  decode_group_def decode_loop.simps decode_padding1_def decode_padding2_def toUint8Array_def
  encode_triplet_def encode_loop.simps fromUint8Array_def Let_def

section \<open>The alphabet table invariant\<close>

text \<open>
  C7, as stated, fails at the alias \<open>-\<close>: the reverse table maps it to 62, and the forward
  table maps 62 to \<open>+\<close>.
\<close>

theorem alias_not_inverted:
  "revLookup (chr CHR ''-'') = Some 62 \<and> lookup 62 = Some (chr CHR ''+'') \<and>
   chr CHR ''+'' \<noteq> chr CHR ''-''"
  by (simp add: eval_defs)

text \<open>
  C7 (amended): the entries of the reverse table are the 64 characters of \<open>code\<close> and the
  two aliases \<open>-\<close> and \<open>_\<close>. For every character \<open>c\<close> of \<open>code\<close> the forward table maps
  the reverse table's value back to \<open>c\<close>. The aliases \<open>-\<close> and \<open>_\<close> have the values 62
  and 63, which the forward table maps to \<open>+\<close> and \<open>/\<close>.
\<close>

theorem lookup_revLookup_code:
  "(\<forall>c\<in>set code. \<exists>v. revLookup c = Some v \<and> lookup v = Some c) \<and>
   revLookup (chr CHR ''-'') = Some 62 \<and> lookup 62 = Some (chr CHR ''+'') \<and>
   revLookup (chr CHR ''_'') = Some 63 \<and> lookup 63 = Some (chr CHR ''/'') \<and>
   dom revLookup = set code \<union> {chr CHR ''-'', chr CHR ''_''}"
proof -
  have "\<exists>v. revLookup c = Some v \<and> lookup v = Some c" if "c \<in> set code" for c
  proof -
    from that obtain i where "i < 64" "code ! i = c"
      by (auto simp: in_set_conv_nth code_length)
    then have "revLookup c = Some i \<and> lookup i = Some c"
      using revLookup_code [of i] by (simp add: lookup_eq)
    then show ?thesis by blast
  qed
  moreover have "revLookup (chr CHR ''-'') = Some 62 \<and> lookup 62 = Some (chr CHR ''+'')"
    by (simp add: eval_defs)
  moreover have "revLookup (chr CHR ''_'') = Some 63 \<and> lookup 63 = Some (chr CHR ''/'')"
    by (simp add: eval_defs)
  moreover have "dom revLookup = set code \<union> {chr CHR ''-'', chr CHR ''_''}"
    by (auto simp: dom_def revLookup_eq revLookup_initial_def split: if_splits)
  ultimately show ?thesis by blast
qed

theorem lookup_revLookup_code_witness:
  "chr CHR ''A'' \<in> set code \<and> revLookup (chr CHR ''A'') = Some 0 \<and>
   lookup 0 = Some (chr CHR ''A'')"
proof -
  have m: "chr CHR ''A'' \<in> set code" by (simp add: code_def js_def)
  from lookup_revLookup_code m
  obtain v where v: "revLookup (chr CHR ''A'') = Some v" "lookup v = Some (chr CHR ''A'')"
    by blast
  have "revLookup (chr CHR ''A'') = Some 0" by (simp add: eval_defs)
  with v m show ?thesis by simp
qed

section \<open>Decoding padded input\<close>

text \<open>
  C3: \<open>getBase64Info("TQ==")\<close> has \<open>paddingLength\<close> 2 and \<open>validLength\<close> 2, as the claim
  says; but \<open>toUint8Array("TQ==")\<close> is the three bytes 0x4D, 0, 0, not the single byte
  0x4D: \<open>getByteLength\<close> takes the padding from the length of the string, which is
  already a multiple of 4, and allocates 3 bytes.
\<close>

theorem toUint8Array_TQ_padded:
  "getBase64Info (js ''TQ=='') =
     Inr \<lparr> validString = js ''TQ'', validLength = 2, paddingString = js ''=='',
           paddingLength = 2, isUrlSafe = False, isNormal = True,
           urlSafeString = js ''TQ'', normalString = js ''TQ=='' \<rparr> \<and>
   getByteLength (js ''TQ=='') = 3 \<and>
   toUint8Array (js ''TQ=='') = Inr [0x4D, 0, 0]"
  by (simp add: eval_defs)

text \<open>
  C1: the round trip fails. The one-byte buffer 0x4D is encoded as \<open>TQ==\<close>, which is
  decoded to three bytes. The six bytes 1 to 6 are encoded as \<open>AQIDBAUG\<close> and decoded to
  a buffer of the right length whose last three bytes are 0: the loop bound
  \<open>validLength / 4\<close> stops the loop after the first group.
\<close>

theorem roundtrip_fails:
  "fromUint8Array [0x4D] = js ''TQ=='' \<and>
   toUint8Array (fromUint8Array [0x4D]) = Inr [0x4D, 0, 0] \<and>
   fromUint8Array [1, 2, 3, 4, 5, 6] = js ''AQIDBAUG'' \<and>
   toUint8Array (fromUint8Array [1, 2, 3, 4, 5, 6]) = Inr [1, 2, 3, 0, 0, 0]"
  by (simp add: eval_defs)

section \<open>What the validity check accepts\<close>

lemma code_all:
  "list_all (\<lambda>c. std_class c \<and> \<not> is_space c \<and> c \<noteq> chr CHR ''='') code"
  by (simp add: code_def js_def chr_def std_class_def alnum_def is_space_def)

text \<open>The URL-safe alphabet is the URL-safe rendering of \<open>code\<close>.\<close>

lemma url_code_eq:
  "base64urlEncode code =
     js ''ABCDEFGHIJKLMNOPQRSTUVWXYZabcdefghijklmnopqrstuvwxyz0123456789-_''"
  by (simp add: base64urlEncode_def replace_char_def strip_trailing_padding_def code_def
      js_def chr_def)

lemma url_code_all:
  "list_all (\<lambda>c. url_class c \<and> \<not> is_space c \<and> c \<noteq> chr CHR ''='')
     (base64urlEncode code)"
  unfolding url_code_eq
  by (simp add: js_def chr_def url_class_def alnum_def is_space_def)

lemma word16_range_cases:
  fixes c :: jschar
  assumes "a \<le> c" "c \<le> b"
  shows "c \<in> set (map of_nat [unat a..<Suc (unat b)])"
proof -
  from assms have "unat c \<in> {unat a..unat b}" by (simp add: word_le_nat_alt)
  then have "of_nat (unat c) \<in> (of_nat ` {unat a..unat b} :: jschar set)" by (rule imageI)
  then show ?thesis by (simp add: atLeastAtMost_upt)
qed

lemma alnum_ranges:
  "list_all (\<lambda>c. c \<in> set code \<and> c \<in> set (base64urlEncode code))
     (map of_nat [unat (chr CHR ''0'')..<Suc (unat (chr CHR ''9''))])"
  "list_all (\<lambda>c. c \<in> set code \<and> c \<in> set (base64urlEncode code))
     (map of_nat [unat (chr CHR ''a'')..<Suc (unat (chr CHR ''z''))])"
  "list_all (\<lambda>c. c \<in> set code \<and> c \<in> set (base64urlEncode code))
     (map of_nat [unat (chr CHR ''A'')..<Suc (unat (chr CHR ''Z''))])"
  unfolding url_code_eq
  by (simp_all add: chr_def upt_rec_numeral code_def js_def)

lemma alnum_code:
  assumes "alnum c"
  shows "c \<in> set code \<and> c \<in> set (base64urlEncode code)"
proof -
  from assms consider
      "chr CHR ''0'' \<le> c" "c \<le> chr CHR ''9''"
    | "chr CHR ''a'' \<le> c" "c \<le> chr CHR ''z''"
    | "chr CHR ''A'' \<le> c" "c \<le> chr CHR ''Z''"
    by (auto simp: alnum_def)
  then show ?thesis
  proof cases
    case 1
    from word16_range_cases [OF 1] alnum_ranges(1) show ?thesis
      unfolding list_all_iff by blast
  next
    case 2
    from word16_range_cases [OF 2] alnum_ranges(2) show ?thesis
      unfolding list_all_iff by blast
  next
    case 3
    from word16_range_cases [OF 3] alnum_ranges(3) show ?thesis
      unfolding list_all_iff by blast
  qed
qed

lemma std_class_iff: "\<not> is_space c \<Longrightarrow> std_class c \<longleftrightarrow> c \<in> set code"
proof
  assume "\<not> is_space c" "std_class c"
  then have "alnum c \<or> c = chr CHR ''+'' \<or> c = chr CHR ''/''"
    by (simp add: std_class_def)
  moreover have "chr CHR ''+'' \<in> set code" "chr CHR ''/'' \<in> set code"
    by (simp_all add: code_def js_def)
  ultimately show "c \<in> set code" using alnum_code by blast
next
  assume "c \<in> set code"
  with code_all show "std_class c" by (simp add: list_all_iff)
qed

lemma url_class_iff:
  "\<not> is_space c \<Longrightarrow> url_class c \<longleftrightarrow> c \<in> set (base64urlEncode code)"
proof
  assume "\<not> is_space c" "url_class c"
  then have "alnum c \<or> c = chr CHR ''-'' \<or> c = chr CHR ''_''"
    by (simp add: url_class_def)
  moreover have "chr CHR ''-'' \<in> set (base64urlEncode code)"
    "chr CHR ''_'' \<in> set (base64urlEncode code)"
    by (simp_all add: url_code_eq js_def)
  ultimately show "c \<in> set (base64urlEncode code)" using alnum_code by blast
next
  assume "c \<in> set (base64urlEncode code)"
  with url_code_all show "url_class c" by (simp add: list_all_iff)
qed

lemma set_strip_padding_0_2: "set (strip_padding_0_2 s) \<subseteq> set s"
  by (auto simp: strip_padding_0_2_def Let_def dest: in_set_takeD)

lemma stripped_no_space:
  "c \<in> set (strip_padding_0_2 (remove_spaces s)) \<Longrightarrow> \<not> is_space c"
  using set_strip_padding_0_2 [of "remove_spaces s"] by (auto simp: remove_spaces_def)

lemma isValid_iff:
  "isValidBase64String (JSString s) \<longleftrightarrow>
     set (strip_padding_0_2 (remove_spaces s)) \<subseteq> set code \<or>
     set (strip_padding_0_2 (remove_spaces s)) \<subseteq> set (base64urlEncode code)"
proof -
  let ?r = "strip_padding_0_2 (remove_spaces s)"
  have "(\<forall>c\<in>set ?r. std_class c) \<longleftrightarrow> set ?r \<subseteq> set code"
    using stripped_no_space [of _ s] std_class_iff by blast
  moreover have "(\<forall>c\<in>set ?r. url_class c) \<longleftrightarrow> set ?r \<subseteq> set (base64urlEncode code)"
    using stripped_no_space [of _ s] url_class_iff by blast
  ultimately show ?thesis by (simp add: list_ex_iff Let_def)
qed

text \<open>
  C2, as stated, fails at the string \<open>+-\<close>: nothing is stripped from it, \<open>+\<close> is in the
  standard alphabet and \<open>-\<close> in the URL-safe alphabet, and the check rejects it, because
  each of the two tests finds a character outside its class.
\<close>

theorem mixed_alphabets_rejected:
  "strip_padding_0_2 (remove_spaces (js ''+-'')) = js ''+-'' \<and>
   chr CHR ''+'' \<in> set code \<and> chr CHR ''-'' \<in> set (base64urlEncode code) \<and>
   \<not> isValidBase64String (JSString (js ''+-''))"
  unfolding url_code_eq by (simp add: eval_defs)

text \<open>
  C2 (amended): \<open>isValidBase64String\<close> returns true for a string exactly when its
  characters, after stripping white space and at most two trailing \<open>=\<close>, are all drawn
  from the standard alphabet or are all drawn from the URL-safe alphabet. A string that
  mixes a character of the standard alphabet only with one of the URL-safe alphabet only
  is rejected.
\<close>

theorem isValidBase64String_one_alphabet:
  "(isValidBase64String (JSString s) \<longleftrightarrow>
      set (strip_padding_0_2 (remove_spaces s)) \<subseteq> set code \<or>
      set (strip_padding_0_2 (remove_spaces s)) \<subseteq> set (base64urlEncode code)) \<and>
   ((chr CHR ''+'' \<in> set (strip_padding_0_2 (remove_spaces s)) \<or>
     chr CHR ''/'' \<in> set (strip_padding_0_2 (remove_spaces s))) \<and>
    (chr CHR ''-'' \<in> set (strip_padding_0_2 (remove_spaces s)) \<or>
     chr CHR ''_'' \<in> set (strip_padding_0_2 (remove_spaces s))) \<longrightarrow>
    \<not> isValidBase64String (JSString s))"
proof -
  let ?r = "strip_padding_0_2 (remove_spaces s)"
  have std_only: "chr CHR ''+'' \<notin> set (base64urlEncode code)"
    "chr CHR ''/'' \<notin> set (base64urlEncode code)"
    unfolding url_code_eq by (simp_all add: js_def chr_def)
  have url_only: "chr CHR ''-'' \<notin> set code" "chr CHR ''_'' \<notin> set code"
    by (simp_all add: code_def js_def chr_def)
  have iff: "isValidBase64String (JSString s) \<longleftrightarrow>
      set ?r \<subseteq> set code \<or> set ?r \<subseteq> set (base64urlEncode code)"
    by (rule isValid_iff)
  moreover have "\<not> isValidBase64String (JSString s)"
    if "chr CHR ''+'' \<in> set ?r \<or> chr CHR ''/'' \<in> set ?r"
      and "chr CHR ''-'' \<in> set ?r \<or> chr CHR ''_'' \<in> set ?r"
  proof -
    from that(1) std_only have "\<not> set ?r \<subseteq> set (base64urlEncode code)" by blast
    moreover from that(2) url_only have "\<not> set ?r \<subseteq> set code" by blast
    ultimately show ?thesis using iff by blast
  qed
  ultimately show ?thesis by blast
qed

theorem isValidBase64String_one_alphabet_witness:
  "set (strip_padding_0_2 (remove_spaces (js ''-_ A=''))) \<subseteq> set (base64urlEncode code) \<and>
   isValidBase64String (JSString (js ''-_ A='')) \<and>
   chr CHR ''/'' \<in> set (strip_padding_0_2 (remove_spaces (js ''a/b_''))) \<and>
   chr CHR ''_'' \<in> set (strip_padding_0_2 (remove_spaces (js ''a/b_''))) \<and>
   \<not> isValidBase64String (JSString (js ''a/b_''))"
proof -
  have h: "set (strip_padding_0_2 (remove_spaces (js ''-_ A=''))) \<subseteq> set (base64urlEncode code)"
    unfolding url_code_eq by (simp add: eval_defs)
  have m: "chr CHR ''/'' \<in> set (strip_padding_0_2 (remove_spaces (js ''a/b_'')))"
    "chr CHR ''_'' \<in> set (strip_padding_0_2 (remove_spaces (js ''a/b_'')))"
    by (simp_all add: eval_defs)
  from h m isValidBase64String_one_alphabet [of "js ''-_ A=''"]
    isValidBase64String_one_alphabet [of "js ''a/b_''"]
  show ?thesis by blast
qed

section \<open>32-bit arithmetic of the encoder\<close>

lemma sint_small:
  assumes "uint (w::int32) < 2 ^ 31"
  shows "sint w = uint w"
proof -
  have "- (2 ^ 31) \<le> uint w" by (rule order_trans [of _ 0]) simp_all
  then have "signed_take_bit 31 (uint w) = uint w"
    using assms by (intro signed_take_bit_int_eq_self) simp_all
  then show ?thesis by (simp add: sint_uint)
qed

lemma sint_and_63: "0 \<le> sint ((x::int32) AND 0x3f) \<and> sint (x AND 0x3f) < 64"
proof -
  have "uint (x AND 0x3f) = uint x AND 63" by (simp add: uint_and)
  moreover have "uint x AND 63 \<le> 63" by (rule AND_upper2) simp
  ultimately have lt: "uint (x AND 0x3f) < 64" by simp
  then have "sint (x AND 0x3f) = uint (x AND 0x3f)" by (intro sint_small) simp
  with lt show ?thesis by simp
qed

lemma sint_sdb_2:
  assumes "uint (w::int32) < 256"
  shows "0 \<le> sint (signed_drop_bit 2 w) \<and> sint (signed_drop_bit 2 w) < 64"
proof -
  from assms have "sint w = uint w" by (intro sint_small) simp
  then have "sint (signed_drop_bit 2 w) = uint w div 4"
    by (simp add: sint_signed_drop_bit_eq drop_bit_eq_div)
  moreover have "0 \<le> uint w div 4 \<and> uint w div 4 < 64"
    using assms uint_ge_0 [of w] by arith
  ultimately show ?thesis by simp
qed

lemma sint_sdb_10:
  assumes "uint (w::int32) < 65536"
  shows "0 \<le> sint (signed_drop_bit 10 w) \<and> sint (signed_drop_bit 10 w) < 64"
proof -
  from assms have "sint w = uint w" by (intro sint_small) simp
  then have "sint (signed_drop_bit 10 w) = uint w div 1024"
    by (simp add: sint_signed_drop_bit_eq drop_bit_eq_div)
  moreover have "0 \<le> uint w div 1024 \<and> uint w div 1024 < 64"
    using assms uint_ge_0 [of w] by arith
  ultimately show ?thesis by simp
qed

lemma uint_pack16:
  assumes "uint (a::int32) < 256" "uint (b::int32) < 256"
  shows "uint (push_bit 8 a + b) < 65536"
proof -
  have "uint (push_bit 8 a) = uint a * 256 mod 4294967296"
    by (simp add: push_bit_eq_mult uint_word_ariths)
  also have "\<dots> \<le> uint a * 256" by (rule zmod_le_nonneg_dividend) simp
  finally have "uint (push_bit 8 a) \<le> uint a * 256" .
  moreover have "uint (push_bit 8 a + b) \<le> uint (push_bit 8 a) + uint b"
    by (rule uint_add_le)
  ultimately show ?thesis using assms by simp
qed

section \<open>The shape of the encoder's output\<close>

lemma u8_at_lt: "uint (u8_at u i) < 256"
proof -
  have "uint (ucast (b::byte) :: int32) < 256" for b
    using uint_bounded [of b] by (simp add: uint_up_ucast is_up)
  then show ?thesis by (simp add: u8_at_def)
qed

lemma lookup_str_code:
  assumes "0 \<le> sint k \<and> sint k < 64"
  shows "\<exists>c\<in>set code. lookup_str k = [c]"
proof -
  from assms have "nat (sint k) < 64" by linarith
  then have "lookup (nat (sint k)) = Some (code ! nat (sint k))" "code ! nat (sint k) \<in> set code"
    by (simp_all add: lookup_eq code_length)
  with assms show ?thesis by (simp add: lookup_str_def)
qed

lemma encode_triplet_shape:
  "length (encode_triplet u i) = 4 \<and> set (encode_triplet u i) \<subseteq> set code"
proof -
  define tmp where "tmp = push_bit 16 (u8_at u i) OR push_bit 8 (u8_at u (i + 1)) OR u8_at u (i + 2)"
  obtain c1 where c1: "c1 \<in> set code" "lookup_str (signed_drop_bit 18 tmp AND 0x3f) = [c1]"
    using lookup_str_code [OF sint_and_63] by blast
  obtain c2 where c2: "c2 \<in> set code" "lookup_str (signed_drop_bit 12 tmp AND 0x3f) = [c2]"
    using lookup_str_code [OF sint_and_63] by blast
  obtain c3 where c3: "c3 \<in> set code" "lookup_str (signed_drop_bit 6 tmp AND 0x3f) = [c3]"
    using lookup_str_code [OF sint_and_63] by blast
  obtain c4 where c4: "c4 \<in> set code" "lookup_str (tmp AND 0x3f) = [c4]"
    using lookup_str_code [OF sint_and_63] by blast
  have "encode_triplet u i = [c1, c2, c3, c4]"
    using c1 c2 c3 c4 by (simp add: encode_triplet_def Let_def tmp_def)
  with c1 c2 c3 c4 show ?thesis by simp
qed

lemma encode_loop_shape:
  "length (concat (encode_loop u forLen i parts)) = length (concat parts) + 4 * ((forLen - i + 2) div 3) \<and>
   set (concat (encode_loop u forLen i parts)) \<subseteq> set (concat parts) \<union> set code"
proof (induction u forLen i parts rule: encode_loop.induct)
  case (1 u forLen i parts)
  show ?case
  proof (cases "i < forLen")
    case True
    then have "(forLen - i + 2) div 3 = Suc ((forLen - (i + 3) + 2) div 3)" by arith
    with True "1.IH" encode_triplet_shape [of u i] show ?thesis
      by (subst (1 2) encode_loop.simps) auto
  next
    case False
    then show ?thesis by (subst (1 2) encode_loop.simps) simp
  qed
qed

lemma pad_eq_2: "js ''=='' = replicate 2 (chr CHR ''='')"
  by (simp add: js_def numeral_2_eq_2)

lemma pad_eq_1: "js ''='' = replicate 1 (chr CHR ''='')"
  by (simp add: js_def)

lemma fromUint8Array_shape:
  "\<exists>body. fromUint8Array B = body @ replicate ((3 - length B mod 3) mod 3) (chr CHR ''='') \<and>
     set body \<subseteq> set code \<and>
     length (fromUint8Array B) = 4 * ((length B + 2) div 3)"
proof -
  define len where "len = length B"
  define r where "r = len mod 3"
  define q where "q = len div 3"
  have len: "len = 3 * q + r" and r: "r < 3" by (simp_all add: q_def r_def)
  define parts where "parts = encode_loop B (len - r) 0 []"
  have "len - r = 3 * q" using len by simp
  then have "(len - r - 0 + 2) div 3 = q" by simp
  then have loop: "length (concat parts) = 4 * q" "set (concat parts) \<subseteq> set code"
    using encode_loop_shape [of B "len - r" 0 "[]"] by (simp_all add: parts_def)
  consider "r = 0" | "r = 1" | "r = 2" using r by linarith
  then show ?thesis
  proof cases
    case 1
    then have "fromUint8Array B = concat parts"
      by (simp add: fromUint8Array_def Let_def parts_def r_def len_def)
    moreover from 1 len have "(len + 2) div 3 = q" by simp
    ultimately show ?thesis using loop 1
      by (intro exI [of _ "concat parts"]) (simp add: r_def [symmetric] len_def [symmetric])
  next
    case 2
    define tmp where "tmp = u8_at B (len - 1)"
    obtain c1 where c1: "c1 \<in> set code" "lookup_str (signed_drop_bit 2 tmp) = [c1]"
      using lookup_str_code [OF sint_sdb_2 [OF u8_at_lt]] unfolding tmp_def by blast
    obtain c2 where c2: "c2 \<in> set code" "lookup_str (push_bit 4 tmp AND 0x3f) = [c2]"
      using lookup_str_code [OF sint_and_63] by blast
    have "fromUint8Array B = concat (parts @ [[c1] @ [c2] @ js ''==''])"
      unfolding fromUint8Array_def Let_def len_def [symmetric] r_def [symmetric]
        parts_def [symmetric] tmp_def [symmetric] c1(2) c2(2)
      using 2 by simp
    then have eq: "fromUint8Array B = (concat parts @ [c1, c2]) @ replicate 2 (chr CHR ''='')"
      by (simp add: pad_eq_2)
    moreover from 2 len have "(len + 2) div 3 = q + 1" by simp
    ultimately show ?thesis using loop 2 c1 c2
      by (intro exI [of _ "concat parts @ [c1, c2]"]) (simp add: r_def [symmetric] len_def [symmetric])
  next
    case 3
    define tmp where "tmp = push_bit 8 (u8_at B (len - 2)) + u8_at B (len - 1)"
    have "uint tmp < 65536" unfolding tmp_def by (rule uint_pack16 [OF u8_at_lt u8_at_lt])
    then obtain c1 where c1: "c1 \<in> set code" "lookup_str (signed_drop_bit 10 tmp) = [c1]"
      using lookup_str_code [OF sint_sdb_10] by blast
    obtain c2 where c2: "c2 \<in> set code" "lookup_str (signed_drop_bit 4 tmp AND 0x3f) = [c2]"
      using lookup_str_code [OF sint_and_63] by blast
    obtain c3 where c3: "c3 \<in> set code" "lookup_str (push_bit 2 tmp AND 0x3f) = [c3]"
      using lookup_str_code [OF sint_and_63] by blast
    have "fromUint8Array B = concat (parts @ [[c1] @ [c2] @ [c3] @ js ''=''])"
      unfolding fromUint8Array_def Let_def len_def [symmetric] r_def [symmetric]
        parts_def [symmetric] tmp_def [symmetric] c1(2) c2(2) c3(2)
      using 3 by simp
    then have eq: "fromUint8Array B = (concat parts @ [c1, c2, c3]) @ replicate 1 (chr CHR ''='')"
      by (simp add: pad_eq_1)
    moreover from 3 len have "(len + 2) div 3 = q + 1" by simp
    ultimately show ?thesis using loop 3 c1 c2 c3
      by (intro exI [of _ "concat parts @ [c1, c2, c3]"]) (simp add: r_def [symmetric] len_def [symmetric])
  qed
qed

lemma ceiling_third: "nat \<lceil>real n / 3\<rceil> = (n + 2) div 3"
proof -
  have "\<lceil>real n / 3\<rceil> = int ((n + 2) div 3)"
  proof (rule ceiling_unique)
    show "real_of_int (int ((n + 2) div 3)) - 1 < real n / 3"
    proof -
      have "3 * ((n + 2) div 3) < n + 3" by arith
      then have "3 * real ((n + 2) div 3) < real n + 3" by (metis of_nat_less_iff of_nat_mult of_nat_add of_nat_numeral)
      then show ?thesis by simp
    qed
    show "real n / 3 \<le> real_of_int (int ((n + 2) div 3))"
    proof -
      have "n \<le> 3 * ((n + 2) div 3)" by arith
      then have "real n \<le> 3 * real ((n + 2) div 3)" by (metis of_nat_le_iff of_nat_mult of_nat_numeral)
      then show ?thesis by simp
    qed
  qed
  then show ?thesis by simp
qed

lemma dropWhile_none: "(\<And>x. x \<in> set xs \<Longrightarrow> \<not> P x) \<Longrightarrow> dropWhile P xs = xs"
  by (cases xs) auto

lemma strip_trailing_padding_app:
  assumes "chr CHR ''='' \<notin> set body"
  shows "strip_trailing_padding (body @ replicate k (chr CHR ''='')) = body"
proof -
  have "dropWhile (\<lambda>c. c = chr CHR ''='') (rev body) = rev body"
    using assms by (intro dropWhile_none) auto
  moreover have "dropWhile (\<lambda>c. c = chr CHR ''='') (replicate k (chr CHR ''='') @ rev body) =
      dropWhile (\<lambda>c. c = chr CHR ''='') (rev body)"
    by (intro dropWhile_append2) simp
  ultimately show ?thesis by (simp add: strip_trailing_padding_def)
qed

lemma strip_padding_0_2_app:
  assumes "chr CHR ''='' \<notin> set body" "k \<le> 2"
  shows "strip_padding_0_2 (body @ replicate k (chr CHR ''='')) = body"
proof -
  from assms(2) consider "k = 0" | "k = 1" | "k = 2" by linarith
  then show ?thesis
  proof cases
    case 1
    have "drop (length body - 2) body \<noteq> js ''==''"
    proof
      assume "drop (length body - 2) body = js ''==''"
      then have "chr CHR ''='' \<in> set (drop (length body - 2) body)" by (simp add: js_def)
      with assms(1) show False by (auto dest: in_set_dropD)
    qed
    moreover have "drop (length body - 1) body \<noteq> js ''=''"
    proof
      assume "drop (length body - 1) body = js ''=''"
      then have "chr CHR ''='' \<in> set (drop (length body - 1) body)" by (simp add: js_def)
      with assms(1) show False by (auto dest: in_set_dropD)
    qed
    ultimately show ?thesis using 1 by (simp add: strip_padding_0_2_def Let_def)
  next
    case 2
    have "drop (length body - 1) (body @ [chr CHR ''='']) \<noteq> js ''==''"
    proof
      assume a: "drop (length body - 1) (body @ [chr CHR ''='']) = js ''==''"
      then have "drop (length body - 1) body @ [chr CHR ''=''] = [chr CHR ''='', chr CHR ''='']"
        by (simp add: js_def)
      then have "drop (length body - 1) body = [chr CHR ''='']" by simp
      then have "chr CHR ''='' \<in> set (drop (length body - 1) body)" by simp
      with assms(1) show False by (auto dest: in_set_dropD)
    qed
    then show ?thesis using 2 by (simp add: strip_padding_0_2_def Let_def js_def)
  next
    case 3
    then show ?thesis by (simp add: strip_padding_0_2_def Let_def js_def numeral_2_eq_2)
  qed
qed


lemma code_no_padding: "chr CHR ''='' \<notin> set code"
  using code_all by (auto simp: list_all_iff)

lemma pad_count_le: "(3 - n mod 3) mod 3 \<le> (2::nat)"
  by arith

section \<open>Properties of the encoder's output\<close>

text \<open>
  C5: for every byte buffer \<open>B\<close>, the length of \<open>fromUint8Array(B)\<close> is
  \<open>ceil(len(B) / 3) * 4\<close>, a multiple of 4.
\<close>

theorem fromUint8Array_length:
  "length (fromUint8Array B) = nat \<lceil>real (length B) / 3\<rceil> * 4 \<and>
   4 dvd length (fromUint8Array B)"
  using fromUint8Array_shape [of B] by (auto simp: ceiling_third)

text \<open>
  C9: for every byte buffer \<open>B\<close>, the URL-safe rendering
  \<open>base64urlEncode(fromUint8Array(B))\<close> contains no \<open>+\<close>, no \<open>/\<close> and no \<open>=\<close>.
\<close>

theorem base64urlEncode_fromUint8Array_safe:
  "chr CHR ''+'' \<notin> set (base64urlEncode (fromUint8Array B)) \<and>
   chr CHR ''/'' \<notin> set (base64urlEncode (fromUint8Array B)) \<and>
   chr CHR ''='' \<notin> set (base64urlEncode (fromUint8Array B))"
proof -
  from fromUint8Array_shape [of B] obtain body where
    eq: "fromUint8Array B = body @ replicate ((3 - length B mod 3) mod 3) (chr CHR ''='')"
    and body: "set body \<subseteq> set code" by blast
  from body code_no_padding have np: "chr CHR ''='' \<notin> set body" by blast
  then have "strip_trailing_padding (fromUint8Array B) = body"
    unfolding eq by (rule strip_trailing_padding_app)
  then have "base64urlEncode (fromUint8Array B) =
      replace_char (chr CHR ''/'') (chr CHR ''_'') (replace_char (chr CHR ''+'') (chr CHR ''-'') body)"
    by (simp add: base64urlEncode_def)
  with np show ?thesis by (auto simp: replace_char_def chr_def)
qed

text \<open>
  C10: for every byte buffer \<open>B\<close>, the encoder's output passes the validity check: it
  consists of characters of the standard alphabet followed by at most two \<open>=\<close>.
\<close>

theorem fromUint8Array_valid:
  "isValidBase64String (JSString (fromUint8Array B)) \<and>
   (\<exists>body k. fromUint8Array B = body @ replicate k (chr CHR ''='') \<and> k \<le> 2 \<and>
      set body \<subseteq> set code)"
proof -
  from fromUint8Array_shape [of B] obtain body where
    eq: "fromUint8Array B = body @ replicate ((3 - length B mod 3) mod 3) (chr CHR ''='')"
    and body: "set body \<subseteq> set code" by blast
  from body code_no_padding have np: "chr CHR ''='' \<notin> set body" by blast
  have "\<not> is_space c" if "c \<in> set (fromUint8Array B)" for c
  proof -
    from that eq have "c \<in> set body \<or> c = chr CHR ''=''" by (auto split: if_splits)
    moreover have "\<not> is_space (chr CHR ''='')" by (simp add: is_space_def chr_def)
    moreover have "\<not> is_space c" if "c \<in> set code" for c
      using that code_all by (auto simp: list_all_iff)
    ultimately show ?thesis using body by blast
  qed
  then have "remove_spaces (fromUint8Array B) = fromUint8Array B"
    by (simp add: remove_spaces_def)
  moreover have "strip_padding_0_2 (fromUint8Array B) = body"
    unfolding eq using np pad_count_le by (rule strip_padding_0_2_app)
  ultimately have "set (strip_padding_0_2 (remove_spaces (fromUint8Array B))) \<subseteq> set code"
    using body by simp
  then have "isValidBase64String (JSString (fromUint8Array B))"
    using isValid_iff [of "fromUint8Array B"] by blast
  with eq body pad_count_le [of "length B"] show ?thesis by blast
qed

section \<open>Byte length and errors of the decoder\<close>

lemma mod4_cases:
  fixes n :: nat
  obtains q where "n = 4 * q" | q where "n = 4 * q + 1"
    | q where "n = 4 * q + 2" | q where "n = 4 * q + 3"
proof -
  have n: "n = 4 * (n div 4) + n mod 4" by simp
  have "n mod 4 < 4" by simp
  then consider "n mod 4 = 0" | "n mod 4 = 1" | "n mod 4 = 2" | "n mod 4 = 3" by linarith
  then show ?thesis
  proof cases
    case 1 with n have "n = 4 * (n div 4)" by simp
    then show ?thesis by (rule that(1))
  next
    case 2 with n have "n = 4 * (n div 4) + 1" by simp
    then show ?thesis by (rule that(2))
  next
    case 3 with n have "n = 4 * (n div 4) + 2" by simp
    then show ?thesis by (rule that(3))
  next
    case 4 with n have "n = 4 * (n div 4) + 3" by simp
    then show ?thesis by (rule that(4))
  qed
qed

lemma getPaddingLength_mod4:
  "length s = 4 * q \<Longrightarrow> getPaddingLength s = 0"
  "length s = 4 * q + 1 \<Longrightarrow> getPaddingLength s = 3"
  "length s = 4 * q + 2 \<Longrightarrow> getPaddingLength s = 2"
  "length s = 4 * q + 3 \<Longrightarrow> getPaddingLength s = 1"
  by (simp_all add: getPaddingLength_def del: add_2_eq_Suc add_2_eq_Suc')

lemma getByteLength_mod4:
  "length s = 4 * q \<Longrightarrow> getByteLength s = int (3 * q)"
  "length s = 4 * q + 1 \<Longrightarrow> getByteLength s = int (3 * q)"
  "length s = 4 * q + 2 \<Longrightarrow> getByteLength s = int (3 * q + 1)"
  "length s = 4 * q + 3 \<Longrightarrow> getByteLength s = int (3 * q + 2)"
  by (simp_all add: getByteLength_def getPaddingLength_def Let_def del: add_2_eq_Suc add_2_eq_Suc')

lemma padded_length_dvd: "4 dvd length (s @ replicate (getPaddingLength s) c)"
  by (cases "length s" rule: mod4_cases)
    (simp_all add: getPaddingLength_mod4 del: add_2_eq_Suc add_2_eq_Suc')

lemma getByteLength_nonneg: "0 \<le> getByteLength s"
  by (cases "length s" rule: mod4_cases) (simp_all add: getByteLength_mod4)


lemma length_u8_set: "length (u8_set a k v) = length a"
  by (simp add: u8_set_def)

lemma length_decode_loop:
  "length (snd (snd (decode_loop s vl st))) = length (snd (snd st))"
proof (induction s vl st rule: decode_loop.induct)
  case (1 base64 validLen i currentByte uint8Array)
  show ?case
  proof (cases "4 * i < validLen")
    case True
    with "1.IH" show ?thesis
      by (subst decode_loop.simps) (simp add: Let_def length_u8_set)
  next
    case False
    then show ?thesis by (subst decode_loop.simps) simp
  qed
qed

lemma length_decode_padding2:
  "length (snd (snd (decode_padding2 s st))) = length (snd (snd st))"
  by (cases st) (simp add: decode_padding2_def Let_def length_u8_set)

lemma length_decode_padding1:
  "length (snd (snd (decode_padding1 s st))) = length (snd (snd st))"
  by (cases st) (simp add: decode_padding1_def Let_def length_u8_set)

lemma getBase64Info_invalid:
  "\<not> isValidBase64String (JSString s) \<Longrightarrow> getBase64Info s = Inl InvalidBase64String"
  by (simp add: getBase64Info_def del: isValidBase64String.simps)

lemma getBase64Info_valid:
  "isValidBase64String (JSString s) \<Longrightarrow> \<exists>info. getBase64Info s = Inr info"
  by (simp add: getBase64Info_def Let_def del: isValidBase64String.simps)

lemma toUint8Array_invalid:
  "\<not> isValidBase64String (JSString s) \<Longrightarrow> toUint8Array s = Inl InvalidBase64String"
  by (simp add: toUint8Array_def getBase64Info_invalid del: isValidBase64String.simps)

lemma toUint8Array_valid:
  assumes "isValidBase64String (JSString s)"
  shows "\<exists>bytes. toUint8Array s = Inr bytes \<and> int (length bytes) = getByteLength s"
proof -
  from getBase64Info_valid [OF assms] obtain info where info: "getBase64Info s = Inr info" ..
  have new: "new_Uint8Array (getByteLength s) = Inr (replicate (nat (getByteLength s)) 0)"
    using getByteLength_nonneg [of s] by (simp add: new_Uint8Array_def)
  show ?thesis
    unfolding toUint8Array_def info new sum.case Let_def
    using getByteLength_nonneg [of s]
    by (simp add: length_decode_loop length_decode_padding1 length_decode_padding2)
qed

text \<open>
  C8: \<open>getBase64Info\<close> and \<open>toUint8Array\<close> raise the invalid-input error exactly when
  \<open>isValidBase64String\<close> returns false on their input; on every accepted input (the
  empty string and strings of padding only included) they return a result and raise no
  error, the RangeError of \<open>new Uint8Array\<close> included.
\<close>

theorem invalid_input_error_iff:
  "(\<not> isValidBase64String (JSString s) \<longrightarrow>
      getBase64Info s = Inl InvalidBase64String \<and> toUint8Array s = Inl InvalidBase64String) \<and>
   (isValidBase64String (JSString s) \<longrightarrow>
      (\<exists>info. getBase64Info s = Inr info) \<and> (\<exists>bytes. toUint8Array s = Inr bytes))"
  using getBase64Info_invalid [of s] toUint8Array_invalid [of s]
    getBase64Info_valid [of s] toUint8Array_valid [of s]
  by blast

theorem invalid_input_error_iff_witness:
  "isValidBase64String (JSString []) \<and> (\<exists>info. getBase64Info [] = Inr info) \<and>
   (\<exists>bytes. toUint8Array [] = Inr bytes) \<and>
   isValidBase64String (JSString (js ''=='')) \<and> (\<exists>info. getBase64Info (js ''=='') = Inr info) \<and>
   (\<exists>bytes. toUint8Array (js ''=='') = Inr bytes) \<and>
   \<not> isValidBase64String (JSString (js ''not base64!!'')) \<and>
   getBase64Info (js ''not base64!!'') = Inl InvalidBase64String \<and>
   toUint8Array (js ''not base64!!'') = Inl InvalidBase64String"
proof -
  have "isValidBase64String (JSString [])" "isValidBase64String (JSString (js ''==''))"
    "\<not> isValidBase64String (JSString (js ''not base64!!''))"
    by (simp_all add: eval_defs)
  with invalid_input_error_iff [of "[]"] invalid_input_error_iff [of "js ''==''"]
    invalid_input_error_iff [of "js ''not base64!!''"]
  show ?thesis by blast
qed

section \<open>The metadata of accepted inputs\<close>












text \<open>
  C4: on accepted input that carries its own padding the byte buffer does not have the length
  \<open>(validLen + paddingLen) * 3 / 4 - paddingLen\<close> of the metadata. For \<open>TQ==\<close> the
  metadata is 2 and 2 and the formula gives 1, for \<open>TWE=\<close> it is 3 and 1 and the formula
  gives 2; \<open>getByteLength\<close> takes the padding from the length of the string, which is
  already a multiple of 4, and \<open>toUint8Array\<close> returns three bytes for both. For the
  unpadded \<open>TQ\<close>, with the same metadata as \<open>TQ==\<close>, it returns one byte.
\<close>

theorem byteLength_padded_input:
  "isValidBase64String (JSString (js ''TQ=='')) \<and>
   validLength (projr (getBase64Info (js ''TQ==''))) = 2 \<and>
   paddingLength (projr (getBase64Info (js ''TQ==''))) = 2 \<and>
   (int (validLength (projr (getBase64Info (js ''TQ=='')))) +
    int (paddingLength (projr (getBase64Info (js ''TQ==''))))) * 3 div 4 -
    int (paddingLength (projr (getBase64Info (js ''TQ=='')))) = 1 \<and>
   getByteLength (js ''TQ=='') = 3 \<and>
   toUint8Array (js ''TQ=='') = Inr [0x4D, 0, 0] \<and>
   isValidBase64String (JSString (js ''TWE='')) \<and>
   validLength (projr (getBase64Info (js ''TWE=''))) = 3 \<and>
   paddingLength (projr (getBase64Info (js ''TWE=''))) = 1 \<and>
   (int (validLength (projr (getBase64Info (js ''TWE='')))) +
    int (paddingLength (projr (getBase64Info (js ''TWE=''))))) * 3 div 4 -
    int (paddingLength (projr (getBase64Info (js ''TWE='')))) = 2 \<and>
   getByteLength (js ''TWE='') = 3 \<and>
   toUint8Array (js ''TWE='') = Inr [0x4D, 0x61, 0] \<and>
   validLength (projr (getBase64Info (js ''TQ''))) = 2 \<and>
   paddingLength (projr (getBase64Info (js ''TQ''))) = 2 \<and>
   toUint8Array (js ''TQ'') = Inr [0x4D]"
proof -
  have v: "isValidBase64String (JSString (js ''TQ==''))"
    "isValidBase64String (JSString (js ''TWE=''))"
    by (simp_all add: eval_defs)
  have i1: "getBase64Info (js ''TQ=='') =
      Inr \<lparr> validString = js ''TQ'', validLength = 2, paddingString = js ''=='',
            paddingLength = 2, isUrlSafe = False, isNormal = True,
            urlSafeString = js ''TQ'', normalString = js ''TQ=='' \<rparr>"
    by (simp add: eval_defs)
  have i2: "getBase64Info (js ''TWE='') =
      Inr \<lparr> validString = js ''TWE'', validLength = 3, paddingString = js ''='',
            paddingLength = 1, isUrlSafe = False, isNormal = True,
            urlSafeString = js ''TWE'', normalString = js ''TWE='' \<rparr>"
    by (simp add: eval_defs)
  have i3: "getBase64Info (js ''TQ'') =
      Inr \<lparr> validString = js ''TQ'', validLength = 2, paddingString = js ''=='',
            paddingLength = 2, isUrlSafe = False, isNormal = True,
            urlSafeString = js ''TQ'', normalString = js ''TQ=='' \<rparr>"
    by (simp add: eval_defs)
  have b: "getByteLength (js ''TQ=='') = 3" "getByteLength (js ''TWE='') = 3"
    by (simp_all add: getByteLength_def getPaddingLength_def js_def)
  have t1: "toUint8Array (js ''TQ=='') = Inr [0x4D, 0, 0]" by (simp add: eval_defs)
  have t2: "toUint8Array (js ''TWE='') = Inr [0x4D, 0x61, 0]" by (simp add: eval_defs)
  have t3: "toUint8Array (js ''TQ'') = Inr [0x4D]" by (simp add: eval_defs)
  show ?thesis unfolding i1 i2 i3 b t1 t2 t3 using v by simp
qed




end
